theory Spec2Isabelle
  imports Complex_Main "HOL-Library.Sublist"
begin

section \<open>Python built-ins used by TextToTopics\<close>

text \<open>
  Strings are lists of characters. The exceptions the methods of \<^verbatim>\<open>TextToTopics\<close> can
  raise are values: \<^verbatim>\<open>IndexError\<close> (an index out of range), \<^verbatim>\<open>ZeroDivisionError\<close>,
  \<^verbatim>\<open>MathDomainError\<close> (the \<^verbatim>\<open>ValueError\<close> of \<^verbatim>\<open>math.log\<close> at a non-positive argument) and
  \<^verbatim>\<open>InvalidArgument\<close> (the \<^verbatim>\<open>ValueError\<close> raised by \<^verbatim>\<open>pos_based_topics\<close>).
\<close>

datatype error = IndexError | ZeroDivisionError | MathDomainError | InvalidArgument

text \<open>\<^verbatim>\<open>str.isspace\<close> on the characters below 256.\<close>

definition is_space :: "char \<Rightarrow> bool" where
  "is_space c = (c \<in> set [CHR 0x09, CHR 0x0A, CHR 0x0B, CHR 0x0C, CHR 0x0D, CHR 0x1C,
                          CHR 0x1D, CHR 0x1E, CHR 0x1F, CHR '' '', CHR 0x85, CHR 0xA0])"

text \<open>Cutting a string at every character that satisfies \<open>P\<close>; empty pieces are kept.\<close>

fun split_where :: "(char \<Rightarrow> bool) \<Rightarrow> string \<Rightarrow> string list" where
  "split_where P [] = [[]]"
| "split_where P (c # cs) =
     (if P c then [] # split_where P cs
      else (case split_where P cs of [] \<Rightarrow> [[c]] | w # ws \<Rightarrow> (c # w) # ws))"

text \<open>\<^verbatim>\<open>s.split(sep)\<close> for a one-character separator: \<^verbatim>\<open>"a.b.".split(".") == ["a","b",""]\<close>.\<close>

definition split_on :: "char \<Rightarrow> string \<Rightarrow> string list" where
  "split_on sep s = split_where (\<lambda>c. c = sep) s"

text \<open>\<^verbatim>\<open>s.split()\<close>: runs of whitespace separate, and no empty string is returned.\<close>

definition py_split :: "string \<Rightarrow> string list" where
  "py_split s = filter (\<lambda>w. w \<noteq> []) (split_where is_space s)"

text \<open>\<^verbatim>\<open>sep.join(ws)\<close>.\<close>

fun py_join :: "string \<Rightarrow> string list \<Rightarrow> string" where
  "py_join sep [] = []"
| "py_join sep [w] = w"
| "py_join sep (w # ws) = w @ sep @ py_join sep ws"

text \<open>\<^verbatim>\<open>s.lower()\<close> on the characters below 256 (ASCII and Latin-1 capitals).\<close>

definition lower_char :: "char \<Rightarrow> char" where
  "lower_char c =
     (let k = (of_char c :: nat)
      in if (65 \<le> k \<and> k \<le> 90) \<or> (192 \<le> k \<and> k \<le> 222 \<and> k \<noteq> 215) then char_of (k + 32) else c)"

definition py_lower :: "string \<Rightarrow> string" where
  "py_lower s = map lower_char s"

text \<open>The regular expression class \<^verbatim>\<open>[A-Z]\<close>.\<close>

definition is_upper :: "char \<Rightarrow> bool" where
  "is_upper c = (65 \<le> (of_char c :: nat) \<and> (of_char c :: nat) \<le> 90)"

text \<open>
  \<^verbatim>\<open>s.replace(old, new)\<close> for a non-empty \<open>old\<close>: the occurrences are found from the left and do
  not overlap. (With an empty \<open>old\<close>, which the callers never pass, the model returns \<open>s\<close>.)
\<close>

function str_replace :: "string \<Rightarrow> string \<Rightarrow> string \<Rightarrow> string" where
  "str_replace old new [] = []"
| "str_replace old new (c # cs) =
     (if old \<noteq> [] \<and> prefix old (c # cs)
      then new @ str_replace old new (drop (length old) (c # cs))
      else c # str_replace old new cs)"
  by pat_completeness auto
termination
  by (relation "measure (\<lambda>(old, new, s). length s)") (auto simp: Suc_le_eq)

text \<open>
  \<^verbatim>\<open>re.sub('[...]+', ' ', s)\<close> for a character class \<open>P\<close>: every maximal run of characters of
  the class becomes one space.
\<close>

function sub_runs :: "(char \<Rightarrow> bool) \<Rightarrow> string \<Rightarrow> string" where
  "sub_runs P [] = []"
| "sub_runs P (c # cs) =
     (if P c then CHR '' '' # sub_runs P (dropWhile P cs) else c # sub_runs P cs)"
  by pat_completeness auto
termination
  by (relation "measure (\<lambda>(P, s). length s)") (auto simp: length_dropWhile_le less_Suc_eq_le)

text \<open>
  \<^verbatim>\<open>xs[i:j]\<close>: a negative bound counts from the end, and both bounds are clamped to the list.
\<close>

definition py_slice :: "'a list \<Rightarrow> int \<Rightarrow> int \<Rightarrow> 'a list" where
  "py_slice xs i j =
     (let len = int (length xs);
          lo = (if i < 0 then max 0 (i + len) else min i len);
          hi = (if j < 0 then max 0 (j + len) else min j len)
      in take (nat (hi - lo)) (drop (nat lo) xs))"

text \<open>A \<^verbatim>\<open>for\<close> loop whose body may raise: the first exception ends the loop.\<close>

fun fold_err :: "('a \<Rightarrow> 's \<Rightarrow> error + 's) \<Rightarrow> 'a list \<Rightarrow> 's \<Rightarrow> error + 's" where
  "fold_err f [] s = Inr s"
| "fold_err f (x # xs) s = (case f x s of Inl e \<Rightarrow> Inl e | Inr s' \<Rightarrow> fold_err f xs s')"

text \<open>A list comprehension whose element expression may raise.\<close>

fun map_err :: "('a \<Rightarrow> error + 'b) \<Rightarrow> 'a list \<Rightarrow> error + 'b list" where
  "map_err f [] = Inr []"
| "map_err f (x # xs) =
     (case f x of Inl e \<Rightarrow> Inl e
      | Inr y \<Rightarrow> (case map_err f xs of Inl e \<Rightarrow> Inl e | Inr ys \<Rightarrow> Inr (y # ys)))"

text \<open>\<^verbatim>\<open>xs[i]\<close> for \<open>i \<ge> 0\<close>.\<close>

definition index_err :: "'a list \<Rightarrow> nat \<Rightarrow> error + 'a" where
  "index_err xs i = (if i < length xs then Inr (xs ! i) else Inl IndexError)"

subsection \<open>\<^verbatim>\<open>collections.Counter\<close>\<close>

text \<open>
  A \<^verbatim>\<open>Counter\<close> is a dictionary, and a dictionary keeps its keys in the order of their first
  insertion: an association list with distinct keys. \<open>dict_set\<close> is \<^verbatim>\<open>d[k] = v\<close>;
  \<open>counter_get\<close> is \<^verbatim>\<open>d.get(k, 0)\<close>, also the value of \<^verbatim>\<open>d[k]\<close> on a Counter;
  \<open>counter_update\<close> is \<^verbatim>\<open>d.update({k: c})\<close>, which stores \<^verbatim>\<open>c + d.get(k, 0)\<close>, or \<open>c\<close> itself
  when the counter is empty; \<open>count_elements\<close> is \<^verbatim>\<open>Counter(xs)\<close>.
\<close>

type_synonym 'v counter = "(string \<times> 'v) list"

fun dict_set :: "string \<Rightarrow> 'v \<Rightarrow> 'v counter \<Rightarrow> 'v counter" where
  "dict_set k v [] = [(k, v)]"
| "dict_set k v ((k', v') # d) =
     (if k' = k then (k', v) # d else (k', v') # dict_set k v d)"

definition counter_get :: "('v::zero) counter \<Rightarrow> string \<Rightarrow> 'v" where
  "counter_get d k = (case map_of d k of None \<Rightarrow> 0 | Some v \<Rightarrow> v)"

definition counter_update :: "string \<Rightarrow> 'v \<Rightarrow> 'v counter \<Rightarrow> ('v::{zero,plus}) counter" where
  "counter_update k c d = (if d = [] then [(k, c)] else dict_set k (c + counter_get d k) d)"

definition count_elements :: "string list \<Rightarrow> int counter" where
  "count_elements xs = foldl (\<lambda>d x. dict_set x (counter_get d x + 1) d) [] xs"

text \<open>
  \<^verbatim>\<open>most_common(n)\<close> is \<^verbatim>\<open>sorted(d.items(), key=itemgetter(1), reverse=True)\<close> when \<open>n\<close> is
  \<^verbatim>\<open>None\<close>, and \<^verbatim>\<open>heapq.nlargest(n, d.items(), key=itemgetter(1))\<close> otherwise. Python's sort is
  stable, also with \<^verbatim>\<open>reverse=True\<close>; \<^verbatim>\<open>nlargest\<close> returns the first \<open>n\<close> entries of that
  sorted list, and the empty list when \<open>n \<le> 0\<close>.
\<close>

definition sorted_desc :: "('v::{uminus,linorder}) counter \<Rightarrow> 'v counter" where
  "sorted_desc items = sort_key (\<lambda>p. - snd p) items"

definition nlargest :: "int \<Rightarrow> ('v::{uminus,linorder}) counter \<Rightarrow> 'v counter" where
  "nlargest n items = take (nat n) (sorted_desc items)"

definition most_common :: "int option \<Rightarrow> ('v::{uminus,linorder}) counter \<Rightarrow> 'v counter" where
  "most_common n d = (case n of None \<Rightarrow> sorted_desc d | Some k \<Rightarrow> nlargest k d)"

section \<open>Text normalisation\<close>

text \<open>
  \<^verbatim>\<open>_handle_punctuation\<close>. The bracket class of its first substitution lists, in this order,
  the characters \<^verbatim>\<open>! @ # $ % * ( ) _\<close>, then \<^verbatim>\<open>+-=\<close>, which inside a class is the range from
  \<^verbatim>\<open>+\<close> (code 43) to \<^verbatim>\<open>=\<close> (code 61), then the escaped brackets and braces, the bar, the
  escaped backslash, colon, semicolon, double quote, comma, the escaped angle brackets, the
  escaped period, and the bar and the double quote once more. \<open>CHR 0x22\<close> is the double quote
  and \<open>CHR 0x5C\<close> the backslash.
\<close>

definition punct_class :: "char \<Rightarrow> bool" where
  "punct_class c =
     (c \<in> set ''!@#$%*()_''
      \<or> (43 \<le> (of_char c :: nat) \<and> (of_char c :: nat) \<le> 61)
      \<or> c \<in> set ''[]{}|'' \<or> c = CHR 0x5C \<or> c \<in> set '':;'' \<or> c = CHR 0x22
      \<or> c \<in> set '',<>.|'' \<or> c = CHR 0x22)"

definition handle_punctuation :: "string \<Rightarrow> string" where
  "handle_punctuation sentence =
     (let sentence = sub_runs punct_class sentence;
          sentence = sub_runs (\<lambda>c. c = CHR '' '') sentence
      in sentence)"

text \<open>
  \<^verbatim>\<open>re.findall(r'(?:[A-Z]\.)+', sentence)\<close>: \<open>acronym_prefix\<close> is the longest prefix made of
  capital-period pairs; the scan takes a non-empty match and goes on behind it, or moves one
  character on.
\<close>

fun acronym_prefix :: "string \<Rightarrow> string" where
  "acronym_prefix (a # b # cs) =
     (if is_upper a \<and> b = CHR ''.'' then a # b # acronym_prefix cs else [])"
| "acronym_prefix cs = []"

function findall_acronyms :: "string \<Rightarrow> string list" where
  "findall_acronyms [] = []"
| "findall_acronyms (c # cs) =
     (let a = acronym_prefix (c # cs)
      in if a = [] then findall_acronyms cs
         else a # findall_acronyms (drop (length a) (c # cs)))"
  by pat_completeness auto
termination
  by (relation "measure length") (auto simp: Let_def Suc_le_eq)

text \<open>\<^verbatim>\<open>_handle_period\<close>.\<close>

definition handle_period :: "string \<Rightarrow> string" where
  "handle_period sentence =
     foldl (\<lambda>sentence a. str_replace a (str_replace ''.'' [] a) sentence)
       sentence (findall_acronyms sentence)"

section \<open>N-gram generation\<close>

text \<open>
  The window loop of \<^verbatim>\<open>_get_n_grams\<close> for one filtered fragment:
  \<^verbatim>\<open>m = len(tokens); if m > n: for i in range(len(tokens)-(n-1)): ... tokens[i:i+n]\<close>.
\<close>

definition windows :: "'a list \<Rightarrow> int \<Rightarrow> 'a list list" where
  "windows tokens n =
     (let m = int (length tokens)
      in if m > n
         then map (\<lambda>i. py_slice tokens (int i) (int i + n)) [0..<nat (m - (n - 1))]
         else [])"


section \<open>The linguistic adapter\<close>

text \<open>
  Tagging and lemmatisation are NLTK's, not this repository's: \<open>tagger t\<close> stands for
  \<^verbatim>\<open>nltk.pos_tag([t])[0][1]\<close>, the tag string of a token, and \<open>lemmatizer w p\<close> for
  \<^verbatim>\<open>WordNetLemmatizer().lemmatize(w, p)\<close>. Both are parameters of everything below.
\<close>

type_synonym tagger = "string \<Rightarrow> string"
type_synonym lemmatizer = "string \<Rightarrow> char \<Rightarrow> string"

text \<open>\<^verbatim>\<open>nltk.pos_tag([w])[0][1][0]\<close>: the first character of the tag.\<close>

definition tag_first :: "tagger \<Rightarrow> string \<Rightarrow> error + char" where
  "tag_first tagger w = (case tagger w of [] \<Rightarrow> Inl IndexError | c # _ \<Rightarrow> Inr c)"

text \<open>\<^verbatim>\<open>_get_pos\<close>.\<close>

definition get_pos :: "tagger \<Rightarrow> string \<Rightarrow> error + char" where
  "get_pos tagger token =
     (case tag_first tagger token of
        Inl e \<Rightarrow> Inl e
      | Inr c \<Rightarrow>
          Inr (if c = CHR ''N'' then CHR ''n''
               else if c = CHR ''V'' then CHR ''v''
               else if c = CHR ''R'' then CHR ''r''
               else if c = CHR ''J'' then CHR ''a''
               else if c = CHR ''S'' then CHR ''s''
               else CHR ''n''))"

text \<open>\<^verbatim>\<open>_lemmatize_content\<close>: \<open>lemmatize_sentence\<close> is the body of its loop.\<close>

definition lemmatize_token :: "tagger \<Rightarrow> lemmatizer \<Rightarrow> string \<Rightarrow> error + string" where
  "lemmatize_token tagger lmtzr c =
     (case get_pos tagger c of Inl e \<Rightarrow> Inl e | Inr p \<Rightarrow> Inr (lmtzr (py_lower c) p))"

definition lemmatize_sentence :: "tagger \<Rightarrow> lemmatizer \<Rightarrow> string \<Rightarrow> error + string" where
  "lemmatize_sentence tagger lmtzr content =
     (case map_err (lemmatize_token tagger lmtzr) (py_split content) of
        Inl e \<Rightarrow> Inl e
      | Inr ws \<Rightarrow> Inr (py_join '' '' ws))"

definition lemmatize_content :: "tagger \<Rightarrow> lemmatizer \<Rightarrow> string list \<Rightarrow> error + string list" where
  "lemmatize_content tagger lmtzr total_content =
     map_err (lemmatize_sentence tagger lmtzr) total_content"

section \<open>\<^verbatim>\<open>_get_n_grams\<close>\<close>

text \<open>\<^verbatim>\<open>nltk.pos_tag([t])[0][1].startswith(('N','V','R','J','S'))\<close>.\<close>

definition open_class :: "tagger \<Rightarrow> string \<Rightarrow> bool" where
  "open_class tagger t = (case tagger t of [] \<Rightarrow> False | c # _ \<Rightarrow> c \<in> set ''NVRJS'')"

text \<open>
  \<open>fragments\<close> are the strings \<open>sub\<close> of the inner loop after \<^verbatim>\<open>_handle_punctuation\<close>,
  \<open>fragment_tokens\<close> the filtered tokens of one of them, \<open>sentence_ngrams\<close> what one
  lemmatised sentence adds to \<^verbatim>\<open>list_ngrams\<close>.
\<close>

definition fragments :: "string \<Rightarrow> string list" where
  "fragments sentence = map handle_punctuation (split_on CHR ''.'' (handle_period sentence))"

definition fragment_tokens :: "tagger \<Rightarrow> string \<Rightarrow> string list" where
  "fragment_tokens tagger sub = filter (open_class tagger) (py_split sub)"

definition sentence_ngrams :: "tagger \<Rightarrow> int \<Rightarrow> string \<Rightarrow> string list list" where
  "sentence_ngrams tagger n sentence =
     foldl (\<lambda>list_ngrams sub. list_ngrams @ windows (fragment_tokens tagger sub) n)
       [] (fragments sentence)"

definition get_n_grams ::
  "tagger \<Rightarrow> lemmatizer \<Rightarrow> string list \<Rightarrow> int \<Rightarrow> error + string list list" where
  "get_n_grams tagger lmtzr total_content n =
     (case lemmatize_content tagger lmtzr total_content of
        Inl e \<Rightarrow> Inl e
      | Inr content \<Rightarrow>
          Inr (foldl (\<lambda>list_ngrams sentence. list_ngrams @ sentence_ngrams tagger n sentence)
                 [] content))"

section \<open>\<^verbatim>\<open>pim_based_topics\<close>\<close>

text \<open>
  Python's floats are read as the real numbers they stand for: \<open>/\<close>, \<open>*\<close> and \<^verbatim>\<open>math.log\<close>
  are exact, rounding is not modelled. The counts are exact integers in the source too.

  \<open>count_entry value v\<close> is the body of the loop \<^verbatim>\<open>for v in ngrams\<close>: \<^verbatim>\<open>counts[-1]\<close> is the last
  cell, and \<^verbatim>\<open>value[i]\<close> raises when \<open>v\<close> is longer than \<open>value\<close>.
\<close>

definition count_entry :: "string list \<Rightarrow> string list \<Rightarrow> nat list \<Rightarrow> error + nat list" where
  "count_entry value v counts =
     (let counts = (if v = value
                    then counts[length counts - 1 := counts ! (length counts - 1) + 1]
                    else counts)
      in fold_err (\<lambda>i counts.
                    if i < length value
                    then Inr (if v ! i = value ! i then counts[i := counts ! i + 1] else counts)
                    else Inl IndexError)
           [0..<length v] counts)"

definition ngram_counts :: "string list list \<Rightarrow> string list \<Rightarrow> error + nat list" where
  "ngram_counts ngrams value =
     fold_err (count_entry value) ngrams (replicate (length value) 0 @ [0])"

text \<open>The body of the loop \<^verbatim>\<open>for value in ngrams\<close>.\<close>

definition pim_step :: "string list list \<Rightarrow> string list \<Rightarrow> real counter \<Rightarrow> error + real counter" where
  "pim_step ngrams value counter =
     (case ngram_counts ngrams value of
        Inl e \<Rightarrow> Inl e
      | Inr counts \<Rightarrow>
          (let total = length ngrams
           in if last counts > 2
              then (if total = 0 then Inl ZeroDivisionError
                    else (let p_all = real (last counts) / real total;
                              p_other = foldl (\<lambda>p_other c. p_other * real c / real total)
                                          1 (butlast counts)
                          in if p_other = 0 then Inl ZeroDivisionError
                             else if p_all / p_other \<le> 0 then Inl MathDomainError
                             else Inr (counter_update (py_join '' '' value)
                                         (ln (p_all / p_other)) counter)))
              else Inr counter))"

definition pim_counter :: "string list list \<Rightarrow> error + real counter" where
  "pim_counter ngrams = fold_err (pim_step ngrams) ngrams []"

text \<open>The counter of \<^verbatim>\<open>pim_based_topics\<close> when its loop has ended, before the ranking.\<close>

definition pim_candidates ::
  "tagger \<Rightarrow> lemmatizer \<Rightarrow> string list \<Rightarrow> int \<Rightarrow> error + real counter" where
  "pim_candidates tagger lmtzr content n =
     (case get_n_grams tagger lmtzr content n of
        Inl e \<Rightarrow> Inl e
      | Inr ngrams \<Rightarrow> pim_counter ngrams)"

text \<open>\<^verbatim>\<open>if number:\<close> holds for an integer other than 0, and fails for \<^verbatim>\<open>None\<close> and for 0.\<close>

definition pim_based_topics ::
  "tagger \<Rightarrow> lemmatizer \<Rightarrow> string list \<Rightarrow> int \<Rightarrow> int option \<Rightarrow> error + real counter" where
  "pim_based_topics tagger lmtzr content n number =
     (case pim_candidates tagger lmtzr content n of
        Inl e \<Rightarrow> Inl e
      | Inr counter \<Rightarrow>
          Inr (if number \<noteq> None \<and> number \<noteq> Some 0
               then most_common number counter
               else most_common None counter))"

section \<open>\<^verbatim>\<open>pos_based_topics\<close>\<close>

text \<open>
  The tests of the two branches; \<^verbatim>\<open>and\<close> and \<^verbatim>\<open>or\<close> evaluate their right operand only when
  the left one does not decide.
\<close>

definition qualifies3 :: "tagger \<Rightarrow> string \<Rightarrow> error + bool" where
  "qualifies3 tagger value =
     (case index_err (split_on CHR '' '' value) 0 of
        Inl e \<Rightarrow> Inl e
      | Inr w1 \<Rightarrow>
     (case index_err (split_on CHR '' '' value) 1 of
        Inl e \<Rightarrow> Inl e
      | Inr w2 \<Rightarrow>
     (case index_err (split_on CHR '' '' value) 2 of
        Inl e \<Rightarrow> Inl e
      | Inr w3 \<Rightarrow>
     (case tag_first tagger w1 of
        Inl e \<Rightarrow> Inl e
      | Inr t1 \<Rightarrow>
          (if t1 \<in> set ''JN''
           then (case tag_first tagger w3 of Inl e \<Rightarrow> Inl e | Inr t3 \<Rightarrow> Inr (t3 \<in> set ''JN''))
           else Inr False)))))"

definition qualifies2 :: "tagger \<Rightarrow> string \<Rightarrow> error + bool" where
  "qualifies2 tagger value =
     (case index_err (split_on CHR '' '' value) 0 of
        Inl e \<Rightarrow> Inl e
      | Inr w1 \<Rightarrow>
     (case index_err (split_on CHR '' '' value) 1 of
        Inl e \<Rightarrow> Inl e
      | Inr w2 \<Rightarrow>
     (case tag_first tagger w1 of
        Inl e \<Rightarrow> Inl e
      | Inr t1 \<Rightarrow>
          (if t1 = CHR ''N''
           then (case tag_first tagger w2 of Inl e \<Rightarrow> Inl e | Inr t2 \<Rightarrow> Inr (t2 = CHR ''N''))
           else if t1 = CHR ''J''
           then (case tag_first tagger w2 of Inl e \<Rightarrow> Inl e | Inr t2 \<Rightarrow> Inr (t2 = CHR ''N''))
           else Inr False))))"

text \<open>The body of the loops \<^verbatim>\<open>for value in ngrams\<close>, with the test of the branch as \<open>q\<close>.\<close>

definition pos_step ::
  "(string \<Rightarrow> error + bool) \<Rightarrow> int counter \<Rightarrow> string \<Rightarrow> int counter \<Rightarrow> error + int counter" where
  "pos_step q counter value counter_final =
     (case q value of
        Inl e \<Rightarrow> Inl e
      | Inr ok \<Rightarrow>
          Inr (if ok then counter_update value (counter_get counter value) counter_final
               else counter_final))"

definition pos_counter :: "(string \<Rightarrow> error + bool) \<Rightarrow> string list \<Rightarrow> error + int counter" where
  "pos_counter q ngrams = fold_err (pos_step q (count_elements ngrams)) ngrams []"

text \<open>
  \<^verbatim>\<open>counter_final\<close> when the loop of the branch has ended, before the ranking; the last
  branch is the \<^verbatim>\<open>raise ValueError\<close>.
\<close>

definition pos_candidates ::
  "tagger \<Rightarrow> lemmatizer \<Rightarrow> string list \<Rightarrow> int \<Rightarrow> error + int counter" where
  "pos_candidates tagger lmtzr content n =
     (case get_n_grams tagger lmtzr content n of
        Inl e \<Rightarrow> Inl e
      | Inr grams \<Rightarrow>
          (let ngrams = map (py_join '' '') grams
           in if n = 3 then pos_counter (qualifies3 tagger) ngrams
              else if n = 2 then pos_counter (qualifies2 tagger) ngrams
              else Inl InvalidArgument))"

definition pos_based_topics ::
  "tagger \<Rightarrow> lemmatizer \<Rightarrow> string list \<Rightarrow> int \<Rightarrow> int option \<Rightarrow> error + int counter" where
  "pos_based_topics tagger lmtzr content n number =
     (case pos_candidates tagger lmtzr content n of
        Inl e \<Rightarrow> Inl e
      | Inr counter_final \<Rightarrow> Inr (most_common number counter_final))"

section \<open>Stand-ins for the adapter on concrete inputs\<close>

text \<open>
  A tagger under which every token is a noun, and a lemmatiser that returns its word: the
  simplest adapter, used where a theorem is evaluated on a concrete content.
\<close>

definition noun_tagger :: tagger where
  "noun_tagger t = ''NN''"

definition id_lemmatizer :: lemmatizer where
  "id_lemmatizer w p = w"

section \<open>The quantities the specification speaks of\<close>

text \<open>
  The specification describes the scores by counts over the flat list of n-grams. These
  definitions follow its words, to be compared with what the loops above compute.
  \<open>occurrence_count\<close> counts a topic string among the space-joined n-grams, \<open>joint_count\<close>
  the entries equal to an n-gram, \<open>marginal_count\<close> the entries that agree with it at one
  position, and \<open>pmi_single\<close> is the logarithm of the joint probability over the product of
  the marginal ones.
\<close>

definition occurrence_count :: "string list list \<Rightarrow> string \<Rightarrow> nat" where
  "occurrence_count grams topic = count_list (map (py_join '' '') grams) topic"

definition joint_count :: "string list list \<Rightarrow> string list \<Rightarrow> nat" where
  "joint_count grams v = length (filter (\<lambda>u. u = v) grams)"

definition marginal_count :: "string list list \<Rightarrow> string list \<Rightarrow> nat \<Rightarrow> nat" where
  "marginal_count grams v i = length (filter (\<lambda>u. i < length u \<and> u ! i = v ! i) grams)"

definition pmi_single :: "string list list \<Rightarrow> string list \<Rightarrow> real" where
  "pmi_single grams v =
     ln ((real (joint_count grams v) / real (length grams))
         / prod_list (map (\<lambda>i. real (marginal_count grams v i) / real (length grams))
                        [0..<length v]))"






text \<open>
  The lemmas the acronym scenario of the specification names (\<^verbatim>\<open>has\<close> to \<^verbatim>\<open>have\<close>, the article
  to \<^verbatim>\<open>a\<close>), every other word left as it is.
\<close>

definition scenario_lemmatizer :: lemmatizer where
  "scenario_lemmatizer w p = (if w = ''has'' then ''have'' else if w = ''an'' then ''a'' else w)"

section \<open>Loops, counters and sorting\<close>

lemma fold_err_append:
  "fold_err f (xs @ ys) s = (case fold_err f xs s of Inl e \<Rightarrow> Inl e | Inr s' \<Rightarrow> fold_err f ys s')"
  by (induction xs arbitrary: s) (auto split: sum.splits)

lemma fold_err_total:
  assumes "\<And>x s. x \<in> set xs \<Longrightarrow> f x s = Inr (g x s)"
  shows "fold_err f xs s = Inr (foldl (\<lambda>s x. g x s) s xs)"
  using assms by (induction xs arbitrary: s) auto

lemma fold_err_fails:
  assumes "\<And>x s. x \<in> set xs \<Longrightarrow> f x s = Inr (g x s) \<or> f x s = Inl e"
    and "\<exists>x\<in>set xs. \<forall>s. f x s = Inl e"
  shows "fold_err f xs s = Inl e"
  using assms
proof (induction xs arbitrary: s)
  case Nil then show ?case by simp
next
  case (Cons x xs)
  show ?case
  proof (cases "f x s")
    case (Inl e') 
    with Cons.prems(1)[of x s] show ?thesis by auto
  next
    case (Inr s')
    with Cons.prems(2) have ex: "\<exists>x\<in>set xs. \<forall>s. f x s = Inl e" by auto
    have "fold_err f xs s' = Inl e"
      by (rule Cons.IH) (use Cons.prems(1) ex in auto)
    with Inr show ?thesis by simp
  qed
qed

lemma foldl_append_concat:
  "foldl (\<lambda>acc x. acc @ f x) a xs = a @ concat (map f xs)"
  by (induction xs arbitrary: a) auto

lemma map_of_dict_set: "map_of (dict_set k v d) = (map_of d)(k \<mapsto> v)"
  by (induction d) (auto simp: fun_eq_iff)

lemma keys_dict_set:
  "map fst (dict_set k v d) = (if k \<in> set (map fst d) then map fst d else map fst d @ [k])"
  by (induction d) force+

lemma distinct_dict_set: "distinct (map fst d) \<Longrightarrow> distinct (map fst (dict_set k v d))"
  by (simp add: keys_dict_set)

lemma keys_counter_update:
  "map fst (counter_update k c d) = (if k \<in> set (map fst d) then map fst d else map fst d @ [k])"
  by (simp add: counter_update_def keys_dict_set)

lemma get_counter_update:
  fixes c :: "'v::monoid_add"
  shows "counter_get (counter_update k c d) k' = (if k' = k then c + counter_get d k else counter_get d k')"
  by (simp add: counter_update_def counter_get_def map_of_dict_set)

lemma counter_get_mem:
  "distinct (map fst d) \<Longrightarrow> (k, s) \<in> set d \<Longrightarrow> counter_get d k = s"
  by (simp add: counter_get_def)


lemma set_sorted_desc: "set (sorted_desc d) = set d"
  by (simp add: sorted_desc_def)


lemma distinct_keys_sorted_desc:
  "distinct (map fst (sorted_desc d)) = distinct (map fst d)"
  by (simp add: sorted_desc_def distinct_map)



lemma set_most_common: "set (most_common n d) \<subseteq> set d"
  by (auto simp: most_common_def nlargest_def set_sorted_desc split: option.splits dest: in_set_takeD)

lemma distinct_keys_most_common:
  "distinct (map fst d) \<Longrightarrow> distinct (map fst (most_common n d))"
  by (auto simp: most_common_def nlargest_def distinct_keys_sorted_desc take_map[symmetric] split: option.splits)

section \<open>What the counting loops compute\<close>

lemma count_loop_ok:
  assumes "k \<le> length value"
  shows "\<exists>c'. fold_err (\<lambda>i counts.
                    if i < length value
                    then Inr (if v ! i = value ! i then counts[i := counts ! i + 1] else counts)
                    else Inl IndexError) [0..<k] (counts :: nat list) = Inr c'
            \<and> length c' = length counts
            \<and> (\<forall>i<length counts. c' ! i = counts ! i + (if i < k \<and> v ! i = value ! i then 1 else 0))"
  using assms
proof (induction k)
  case 0
  then show ?case by simp
next
  case (Suc k)
  then obtain c' where c': "fold_err (\<lambda>i counts.
                    if i < length value
                    then Inr (if v ! i = value ! i then counts[i := counts ! i + 1] else counts)
                    else Inl IndexError) [0..<k] counts = Inr c'"
      "length c' = length counts"
      "\<forall>i<length counts. c' ! i = counts ! i + (if i < k \<and> v ! i = value ! i then 1 else 0)"
    by auto
  have k: "k < length value" using Suc.prems by simp
  have upd: "\<forall>i<length counts. (c'[k := c' ! k + 1]) ! i = c' ! i + (if i = k then 1 else 0)"
    using c'(2) by (simp add: nth_list_update)
  show ?case
  proof (cases "v ! k = value ! k")
    case True
    have "fold_err (\<lambda>i counts.
                    if i < length value
                    then Inr (if v ! i = value ! i then counts[i := counts ! i + 1] else counts)
                    else Inl IndexError) [0..<Suc k] counts = Inr (c'[k := c' ! k + 1])"
      using c'(1) k True by (simp add: fold_err_append)
    moreover have "\<forall>i<length counts. (c'[k := c' ! k + 1]) ! i
         = counts ! i + (if i < Suc k \<and> v ! i = value ! i then 1 else 0)"
      using upd c'(3) True by (auto simp: less_Suc_eq)
    ultimately show ?thesis using c'(2) by auto
  next
    case False
    have "fold_err (\<lambda>i counts.
                    if i < length value
                    then Inr (if v ! i = value ! i then counts[i := counts ! i + 1] else counts)
                    else Inl IndexError) [0..<Suc k] counts = Inr c'"
      using c'(1) k False by (simp add: fold_err_append)
    moreover have "\<forall>i<length counts. c' ! i
         = counts ! i + (if i < Suc k \<and> v ! i = value ! i then 1 else 0)"
      using c'(3) False by (auto simp: less_Suc_eq)
    ultimately show ?thesis using c'(2) by auto
  qed
qed

lemma count_loop_fail:
  assumes "length value < k"
  shows "fold_err (\<lambda>i counts.
                    if i < length value
                    then Inr (if v ! i = value ! i then counts[i := counts ! i + 1] else counts)
                    else Inl IndexError) [0..<k] (counts :: nat list) = Inl IndexError"
proof -
  have split: "[0..<k] = [0..<length value] @ length value # [Suc (length value)..<k]"
    using assms by (metis less_imp_le_nat upt_add_eq_append upt_conv_Cons le_add_diff_inverse zero_le)
  obtain c' where "fold_err (\<lambda>i counts.
                    if i < length value
                    then Inr (if v ! i = value ! i then counts[i := counts ! i + 1] else counts)
                    else Inl IndexError) [0..<length value] counts = Inr c'"
    using count_loop_ok[of "length value" "value" v counts] by auto
  then show ?thesis
    by (simp add: split fold_err_append)
qed

lemma count_entry_ok:
  assumes "length v \<le> length value" "length counts = Suc (length value)"
  shows "\<exists>c'. count_entry value v counts = Inr c'
            \<and> length c' = length counts
            \<and> last c' = last counts + (if v = value then 1 else 0)
            \<and> (\<forall>i<length value. c' ! i = counts ! i + (if i < length v \<and> v ! i = value ! i then 1 else 0))"
proof -
  define c0 where "c0 = (if v = value
                    then counts[length counts - 1 := counts ! (length counts - 1) + 1]
                    else counts)"
  have len0: "length c0 = Suc (length value)" using assms by (simp add: c0_def)
  have nth0: "\<forall>i<length value. c0 ! i = counts ! i"
    using assms by (simp add: c0_def)
  have last0: "c0 ! length value = counts ! length value + (if v = value then 1 else 0)"
    using assms by (simp add: c0_def)
  obtain c' where c': "fold_err (\<lambda>i counts.
                    if i < length value
                    then Inr (if v ! i = value ! i then counts[i := counts ! i + 1] else counts)
                    else Inl IndexError) [0..<length v] c0 = Inr c'"
      "length c' = length c0"
      "\<forall>i<length c0. c' ! i = c0 ! i + (if i < length v \<and> v ! i = value ! i then 1 else 0)"
    using count_loop_ok[OF assms(1), of v c0] by auto
  have ce: "count_entry value v counts = Inr c'"
    using c'(1) by (simp add: count_entry_def c0_def)
  have "c' ! length value = c0 ! length value"
    using c'(3) len0 assms(1) by simp
  then have "last c' = last counts + (if v = value then 1 else 0)"
    using last0 c'(2) len0 assms(2)
    by (metis diff_Suc_1 last_conv_nth length_0_conv nat.distinct(1))
  moreover have "\<forall>i<length value. c' ! i = counts ! i + (if i < length v \<and> v ! i = value ! i then 1 else 0)"
    using c'(3) nth0 len0 by simp
  ultimately show ?thesis using ce c'(2) len0 assms(2) by simp
qed

lemma count_entry_fail:
  "length value < length v \<Longrightarrow> count_entry value v counts = Inl IndexError"
  by (simp add: count_entry_def count_loop_fail)

lemma counts_fold_ok:
  assumes "\<forall>v\<in>set vs. length v \<le> length value" "length counts = Suc (length value)"
  shows "\<exists>c'. fold_err (count_entry value) vs counts = Inr c'
            \<and> length c' = Suc (length value)
            \<and> last c' = last counts + joint_count vs value
            \<and> (\<forall>i<length value. c' ! i = counts ! i + marginal_count vs value i)"
  using assms
proof (induction vs arbitrary: counts)
  case Nil
  then show ?case by (simp add: joint_count_def marginal_count_def)
next
  case (Cons v vs)
  obtain c1 where c1: "count_entry value v counts = Inr c1" "length c1 = length counts"
      "last c1 = last counts + (if v = value then 1 else 0)"
      "\<forall>i<length value. c1 ! i = counts ! i + (if i < length v \<and> v ! i = value ! i then 1 else 0)"
    using count_entry_ok[of v "value" counts] Cons.prems by auto
  obtain c' where c': "fold_err (count_entry value) vs c1 = Inr c'"
      "length c' = Suc (length value)"
      "last c' = last c1 + joint_count vs value"
      "\<forall>i<length value. c' ! i = c1 ! i + marginal_count vs value i"
    using Cons.IH[of c1] Cons.prems c1(2) by auto
  show ?case
    using c1 c' by (auto simp: joint_count_def marginal_count_def)
qed

lemma counts_fold_fail:
  assumes "\<exists>v\<in>set vs. length value < length v" "length counts = Suc (length value)"
  shows "fold_err (count_entry value) vs counts = Inl IndexError"
  using assms
proof (induction vs arbitrary: counts)
  case Nil
  then show ?case by simp
next
  case (Cons v vs)
  show ?case
  proof (cases "length value < length v")
    case True
    then show ?thesis by (simp add: count_entry_fail)
  next
    case False
    then obtain c1 where c1: "count_entry value v counts = Inr c1" "length c1 = length counts"
      using count_entry_ok[of v "value" counts] Cons.prems by auto
    have "fold_err (count_entry value) vs c1 = Inl IndexError"
      using Cons.IH[of c1] Cons.prems False c1(2) by auto
    then show ?thesis using c1 by simp
  qed
qed

lemma ngram_counts_eq:
  "ngram_counts grams value =
     (if \<forall>v\<in>set grams. length v \<le> length value
      then Inr (map (marginal_count grams value) [0..<length value] @ [joint_count grams value])
      else Inl IndexError)"
proof (cases "\<forall>v\<in>set grams. length v \<le> length value")
  case True
  obtain c' where c': "fold_err (count_entry value) grams (replicate (length value) 0 @ [0]) = Inr c'"
      "length c' = Suc (length value)"
      "last c' = last (replicate (length value) 0 @ [0]) + joint_count grams value"
      "\<forall>i<length value. c' ! i = (replicate (length value) 0 @ [0]) ! i + marginal_count grams value i"
    using counts_fold_ok[OF True, of "replicate (length value) 0 @ [0]"] by auto
  have "c' = map (marginal_count grams value) [0..<length value] @ [joint_count grams value]"
  proof (rule nth_equalityI)
    show "length c' = length (map (marginal_count grams value) [0..<length value] @ [joint_count grams value])"
      using c'(2) by simp
  next
    fix i assume i: "i < length c'"
    show "c' ! i = (map (marginal_count grams value) [0..<length value] @ [joint_count grams value]) ! i"
    proof (cases "i < length value")
      case True
      then show ?thesis using c'(4) by (simp add: nth_append)
    next
      case False
      then have "i = length value" using i c'(2) by simp
      moreover have "c' ! length value = last c'"
        using c'(2) by (metis diff_Suc_1 last_conv_nth length_0_conv nat.distinct(1))
      ultimately show ?thesis using c'(3) by (simp add: nth_append)
    qed
  qed
  then show ?thesis using True c'(1) by (simp add: ngram_counts_def)
next
  case False
  then have "\<exists>v\<in>set grams. length value < length v" by (auto simp: not_le)
  then show ?thesis using False
    by (simp add: ngram_counts_def counts_fold_fail)
qed

lemma joint_le_marginal:
  "i < length v \<Longrightarrow> joint_count grams v \<le> marginal_count grams v i"
  unfolding joint_count_def marginal_count_def
  by (induction grams) auto

lemma joint_le_total: "joint_count grams v \<le> length grams"
  by (simp add: joint_count_def)

lemma foldl_ratio_prod:
  "foldl (\<lambda>p_other c. p_other * real c / t) a cs = a * prod_list (map (\<lambda>c. real c / t) cs)"
  by (induction cs arbitrary: a) auto

lemma prod_list_pos: "(\<forall>x\<in>set xs. 0 < x) \<Longrightarrow> 0 < prod_list (xs :: real list)"
  by (induction xs) auto

section \<open>The counter of the PMI scorer in closed form\<close>

lemma pim_step_eq:
  "pim_step grams value d =
     (if \<forall>v\<in>set grams. length v \<le> length value
      then Inr (if 2 < joint_count grams value
                then counter_update (py_join '' '' value) (pmi_single grams value) d
                else d)
      else Inl IndexError)"
proof (cases "\<forall>v\<in>set grams. length v \<le> length value")
  case False
  have "ngram_counts grams value = Inl IndexError"
    by (simp only: ngram_counts_eq if_not_P[OF False])
  then show ?thesis by (simp only: pim_step_def if_not_P[OF False] sum.case)
next
  case True
  have nc: "ngram_counts grams value
     = Inr (map (marginal_count grams value) [0..<length value] @ [joint_count grams value])"
    by (simp only: ngram_counts_eq if_P[OF True])
  show ?thesis
  proof (cases "2 < joint_count grams value")
    case False
    then show ?thesis using True by (simp add: pim_step_def nc)
  next
    case big: True
    let ?t = "real (length grams)"
    let ?ms = "map (marginal_count grams value) [0..<length value]"
    have tpos: "0 < length grams"
      using big joint_le_total[of grams "value"] by (cases grams) auto
    have po: "foldl (\<lambda>p_other c. p_other * real c / ?t) 1 ?ms
          = prod_list (map (\<lambda>i. real (marginal_count grams value i) / ?t) [0..<length value])"
      by (simp add: foldl_ratio_prod o_def)
    have "\<forall>x\<in>set (map (\<lambda>i. real (marginal_count grams value i) / ?t) [0..<length value]). 0 < x"
    proof
      fix x assume "x \<in> set (map (\<lambda>i. real (marginal_count grams value i) / ?t) [0..<length value])"
      then obtain i where i: "i < length value" "x = real (marginal_count grams value i) / ?t"
        by auto
      have "0 < marginal_count grams value i"
        using joint_le_marginal[OF i(1), of grams] big by simp
      then show "0 < x" using i(2) tpos by simp
    qed
    then have ppos: "0 < prod_list (map (\<lambda>i. real (marginal_count grams value i) / ?t) [0..<length value])"
      by (rule prod_list_pos)
    have apos: "0 < real (joint_count grams value) / ?t"
      using big tpos by simp
    have rpos: "0 < real (joint_count grams value) / ?t
         / prod_list (map (\<lambda>i. real (marginal_count grams value i) / ?t) [0..<length value])"
      using apos ppos by (rule divide_pos_pos)
    have f1: "(length grams = 0) = False" using tpos by simp
    have f2: "(prod_list (map (\<lambda>i. real (marginal_count grams value i) / ?t) [0..<length value]) = 0) = False"
      using ppos by simp
    have f3: "(real (joint_count grams value) / ?t
         / prod_list (map (\<lambda>i. real (marginal_count grams value i) / ?t) [0..<length value]) \<le> 0) = False"
      using rpos by (simp only: not_le[symmetric] simp_thms)
    show ?thesis
      by (simp only: pim_step_def nc sum.case Let_def last_snoc butlast_snoc po big True
            if_True if_False f1 f2 f3 pmi_single_def if_P[OF True])
  qed
qed

lemma pim_counter_eq:
  "pim_counter grams =
     (if \<forall>u\<in>set grams. \<forall>v\<in>set grams. length v \<le> length u
      then Inr (foldl (\<lambda>d v. if 2 < joint_count grams v
                              then counter_update (py_join '' '' v) (pmi_single grams v) d
                              else d) [] grams)
      else Inl IndexError)"
proof (cases "\<forall>u\<in>set grams. \<forall>v\<in>set grams. length v \<le> length u")
  case True
  have "fold_err (pim_step grams) grams [] =
     Inr (foldl (\<lambda>d v. (\<lambda>v d. if 2 < joint_count grams v
                              then counter_update (py_join '' '' v) (pmi_single grams v) d
                              else d) v d) [] grams)"
    by (rule fold_err_total) (use True in \<open>simp add: pim_step_eq\<close>)
  then show ?thesis using True by (simp add: pim_counter_def)
next
  case False
  have "fold_err (pim_step grams) grams [] = Inl IndexError"
  proof (rule fold_err_fails)
    fix x s assume "x \<in> set grams"
    show "pim_step grams x s = Inr ((\<lambda>v d. if 2 < joint_count grams v
                              then counter_update (py_join '' '' v) (pmi_single grams v) d
                              else d) x s) \<or> pim_step grams x s = Inl IndexError"
      by (simp add: pim_step_eq)
  next
    show "\<exists>x\<in>set grams. \<forall>s. pim_step grams x s = Inl IndexError"
      using False by (auto simp: pim_step_eq)
  qed
  then show ?thesis using False by (simp add: pim_counter_def)
qed


lemma distinct_fold_updates:
  fixes val :: "'a \<Rightarrow> 'v::monoid_add"
  shows "distinct (map fst d0) \<Longrightarrow>
     distinct (map fst (foldl (\<lambda>d v. if q v then counter_update (key v) (val v) d else d) d0 vs))"
  by (induction vs arbitrary: d0) (simp_all add: keys_counter_update)

lemma key_set_counter_update:
  fixes c :: "'v::monoid_add"
  shows "fst ` set (counter_update k c d) = insert k (fst ` set d)"
proof -
  have "set (map fst (counter_update k c d)) = insert k (set (map fst d))"
    by (simp add: keys_counter_update insert_absorb)
  then show ?thesis by simp
qed

lemma key_set_fold_updates:
  fixes val :: "'a \<Rightarrow> 'v::monoid_add"
  shows "fst ` set (foldl (\<lambda>d v. if q v then counter_update (key v) (val v) d else d) d0 vs)
     = fst ` set d0 \<union> key ` {v \<in> set vs. q v}"
proof (induction vs arbitrary: d0)
  case Nil
  then show ?case by simp
next
  case (Cons a vs)
  show ?case
  proof (cases "q a")
    case True
    have "{v \<in> set (a # vs). q v} = insert a {v \<in> set vs. q v}" using True by auto
    then show ?thesis using True by (simp add: Cons.IH key_set_counter_update)
  next
    case False
    have "{v \<in> set (a # vs). q v} = {v \<in> set vs. q v}" using False by auto
    then show ?thesis using False by (simp add: Cons.IH)
  qed
qed

lemma get_fold_updates:
  fixes val :: "'a \<Rightarrow> 'v::comm_monoid_add"
  shows "counter_get (foldl (\<lambda>d v. if q v then counter_update (key v) (val v) d else d) d0 vs) k
     = counter_get d0 k + sum_list (map val (filter (\<lambda>v. q v \<and> key v = k) vs))"
  by (induction vs arbitrary: d0) (auto simp: get_counter_update ac_simps)

lemma sum_list_same:
  fixes f :: "'a \<Rightarrow> 'v::semiring_1"
  shows "sum_list (map f (filter (\<lambda>v. v = v0) xs)) = of_nat (length (filter (\<lambda>v. v = v0) xs)) * f v0"
  by (induction xs) (auto simp: algebra_simps)


section \<open>Tokens, joined topics and windows\<close>

lemma split_where_nonempty: "split_where P s \<noteq> []"
  by (induction s) (auto split: list.splits)

lemma split_where_pieces:
  "w \<in> set (split_where P s) \<Longrightarrow> c \<in> set w \<Longrightarrow> \<not> P c"
proof (induction s arbitrary: w)
  case Nil
  then show ?case by simp
next
  case (Cons a s)
  obtain h t where ht: "split_where P s = h # t"
    using split_where_nonempty[of P s] by (cases "split_where P s") auto
  show ?case
  proof (cases "P a")
    case True
    then show ?thesis using Cons by auto
  next
    case False
    then have "w = a # h \<or> w \<in> set t" using Cons.prems(1) ht by simp
    then show ?thesis
    proof
      assume "w = a # h"
      then have "c = a \<or> c \<in> set h" using Cons.prems(2) by simp
      then show ?thesis using False Cons.IH[of h] ht by auto
    next
      assume "w \<in> set t"
      then show ?thesis using Cons.IH[of w] Cons.prems(2) ht by simp
    qed
  qed
qed

lemma py_split_token:
  "w \<in> set (py_split s) \<Longrightarrow> w \<noteq> [] \<and> CHR '' '' \<notin> set w"
proof -
  assume w: "w \<in> set (py_split s)"
  then have "w \<in> set (split_where is_space s)" "w \<noteq> []" by (auto simp: py_split_def)
  moreover have "is_space CHR '' ''" by (simp add: is_space_def)
  ultimately show ?thesis using split_where_pieces by blast
qed

lemma set_py_slice: "set (py_slice xs i j) \<subseteq> set xs"
proof -
  have "set (py_slice xs i j) \<subseteq> set (drop (nat (if i < 0 then max 0 (i + int (length xs)) else min i (int (length xs)))) xs)"
    unfolding py_slice_def Let_def by (rule set_take_subset)
  also have "\<dots> \<subseteq> set xs" by (rule set_drop_subset)
  finally show ?thesis .
qed

lemma set_windows: "v \<in> set (windows tokens n) \<Longrightarrow> set v \<subseteq> set tokens"
  by (auto simp: windows_def Let_def split: if_splits dest: subsetD[OF set_py_slice])

lemma sentence_ngrams_tokens:
  assumes "v \<in> set (sentence_ngrams T n s)" "w \<in> set v"
  shows "w \<noteq> [] \<and> CHR '' '' \<notin> set w"
proof -
  from assms(1) obtain sub where "v \<in> set (windows (fragment_tokens T sub) n)"
    by (auto simp: sentence_ngrams_def foldl_append_concat)
  then have "w \<in> set (fragment_tokens T sub)" using assms(2) set_windows by blast
  then have "w \<in> set (py_split sub)" by (simp add: fragment_tokens_def)
  then show ?thesis by (rule py_split_token)
qed

lemma get_n_grams_tokens:
  assumes "get_n_grams T L content n = Inr grams" "v \<in> set grams" "w \<in> set v"
  shows "w \<noteq> [] \<and> CHR '' '' \<notin> set w"
proof -
  from assms(1,2) obtain s where "v \<in> set (sentence_ngrams T n s)"
    by (auto simp: get_n_grams_def foldl_append_concat split: sum.splits)
  then show ?thesis using assms(3) by (rule sentence_ngrams_tokens)
qed

lemma append_sep_unique:
  assumes "a @ x # r = b @ x # s" "x \<notin> set a" "x \<notin> set b"
  shows "a = b \<and> r = s"
  using assms
proof (induction a arbitrary: b)
  case Nil
  then show ?case by (cases b) auto
next
  case (Cons y a)
  then show ?case by (cases b) auto
qed

lemma py_join_Cons:
  "py_join sep (w # ws) = (if ws = [] then w else w @ sep @ py_join sep ws)"
  by (cases ws) auto

lemma py_join_inj:
  assumes "length u = length v"
    and "\<forall>w\<in>set u. CHR '' '' \<notin> set w" and "\<forall>w\<in>set v. CHR '' '' \<notin> set w"
    and "py_join '' '' u = py_join '' '' v"
  shows "u = v"
  using assms
proof (induction u v rule: list_induct2)
  case Nil
  then show ?case by simp
next
  case (Cons a us b vs)
  show ?case
  proof (cases "us = []")
    case True
    then show ?thesis using Cons by simp
  next
    case False
    then have vs: "vs \<noteq> []" using Cons.hyps by auto
    have "a @ CHR '' '' # py_join '' '' us = b @ CHR '' '' # py_join '' '' vs"
      using Cons.prems(3) False vs by (simp add: py_join_Cons)
    then have "a = b \<and> py_join '' '' us = py_join '' '' vs"
      using Cons.prems(1,2) by (intro append_sep_unique) auto
    then show ?thesis using Cons by simp
  qed
qed

lemma windows_length: "int (length tokens) > n \<Longrightarrow> length (windows tokens n) = nat (int (length tokens) - n + 1)"
  by (simp add: windows_def Let_def algebra_simps)

lemma windows_empty: "int (length tokens) \<le> n \<Longrightarrow> windows tokens n = []"
  by (simp add: windows_def)

lemma windows_nth:
  assumes "int (length tokens) > n" "i < length (windows tokens n)"
  shows "windows tokens n ! i = py_slice tokens (int i) (int i + n)"
  using assms by (simp add: windows_def Let_def)

lemma py_slice_window:
  assumes "0 \<le> n" "int i + n \<le> int (length tokens)"
  shows "py_slice tokens (int i) (int i + n) = take (nat n) (drop i tokens)"
  using assms by (simp add: py_slice_def Let_def min_def)

lemma py_slice_contiguous:
  "\<exists>k. py_slice tokens (int i) j = take k (drop i tokens)"
proof (cases "i \<le> length tokens")
  case True
  then have "py_slice tokens (int i) j
     = take (nat ((if j < 0 then max 0 (j + int (length tokens)) else min j (int (length tokens))) - int i))
         (drop i tokens)"
    by (simp add: py_slice_def Let_def min_def)
  then show ?thesis by blast
next
  case False
  then have "py_slice tokens (int i) j = take 0 (drop i tokens)"
    by (simp add: py_slice_def Let_def min_def)
  then show ?thesis by blast
qed

lemma windows_same_length:
  assumes "0 \<le> n" "v \<in> set (windows tokens n)"
  shows "length v = nat n"
proof -
  from assms(2) have m: "int (length tokens) > n" 
    by (auto simp: windows_def Let_def split: if_splits)
  from assms(2) obtain i where i: "i < length (windows tokens n)" "v = windows tokens n ! i"
    by (auto simp: in_set_conv_nth)
  have "int i + n \<le> int (length tokens)" using i(1) m by (simp add: windows_length)
  then have "v = take (nat n) (drop i tokens)"
    using i windows_nth[OF m i(1)] py_slice_window[OF assms(1)] by simp
  then show ?thesis using \<open>int i + n \<le> int (length tokens)\<close> assms(1) by auto
qed

section \<open>The claims\<close>

text \<open>
  Claim C3. A filtered fragment of \<open>m\<close> tokens gives, for every integer \<open>n\<close>, exactly
  \<open>m - n + 1\<close> windows when \<open>m > n\<close>, the window at offset \<open>i\<close> being a contiguous piece
  of the fragment that starts at \<open>i\<close> (for \<open>n \<ge> 0\<close> the \<open>n\<close> tokens from \<open>i\<close> on), and no
  window when \<open>m \<le> n\<close>, the case \<open>m = n\<close> included.
\<close>

theorem window_count:
  fixes tokens :: "'a list" and n :: int
  shows "(n < int (length tokens) \<longrightarrow>
            length (windows tokens n) = nat (int (length tokens) - n + 1)
          \<and> (\<forall>i<length (windows tokens n). \<exists>k. windows tokens n ! i = take k (drop i tokens))
          \<and> (0 \<le> n \<longrightarrow>
               (\<forall>i<length (windows tokens n).
                   windows tokens n ! i = take (nat n) (drop i tokens)
                 \<and> length (windows tokens n ! i) = nat n)))
       \<and> (int (length tokens) \<le> n \<longrightarrow> windows tokens n = [])"
proof (intro conjI impI allI)
  assume m: "n < int (length tokens)"
  show "length (windows tokens n) = nat (int (length tokens) - n + 1)"
    using m by (rule windows_length)
  show "\<exists>k. windows tokens n ! i = take k (drop i tokens)" if "i < length (windows tokens n)" for i
    using windows_nth[OF m that] py_slice_contiguous[of tokens i "int i + n"] by simp
  show "windows tokens n ! i = take (nat n) (drop i tokens)"
    if "0 \<le> n" "i < length (windows tokens n)" for i
  proof -
    have "int i + n \<le> int (length tokens)" using that(2) m by (simp add: windows_length)
    then show ?thesis using windows_nth[OF m that(2)] py_slice_window[OF that(1)] by simp
  qed
  show "length (windows tokens n ! i) = nat n"
    if "0 \<le> n" "i < length (windows tokens n)" for i
    using windows_same_length[OF that(1), of "windows tokens n ! i" tokens] that(2) by simp
next
  assume "int (length tokens) \<le> n"
  then show "windows tokens n = []" by (rule windows_empty)
qed

theorem window_count_witness:
  "(2::int) < int (length ''abcd'') \<and> windows ''abcd'' 2 = [''ab'', ''bc'', ''cd'']
   \<and> length (windows ''abcd'' 2) = 3
   \<and> int (length ''ab'') \<le> (2::int) \<and> windows ''ab'' 2 = []"
proof -
  have a: "(2::int) < int (length ''abcd'')" by simp
  have b: "int (length ''ab'') \<le> (2::int)" by simp
  have w: "windows ''abcd'' 2 = [''ab'', ''bc'', ''cd'']" by code_simp
  from window_count[of 2 "''abcd''"] a have "length (windows ''abcd'' 2) = nat (int (length ''abcd'') - 2 + 1)"
    by blast
  moreover from window_count[of 2 "''ab''"] b have "windows ''ab'' 2 = []" by blast
  ultimately show ?thesis using a b w by simp
qed

lemma count_list_map:
  "count_list (map f xs) y = length (filter (\<lambda>x. f x = y) xs)"
  by (induction xs) auto

lemma pim_topics_counter:
  assumes "get_n_grams T L content n = Inr grams"
      and "pim_based_topics T L content n number = Inr result"
  shows "\<exists>d. pim_counter grams = Inr d
           \<and> result = (if number \<noteq> None \<and> number \<noteq> Some 0
                       then most_common number d else most_common None d)"
  using assms by (auto simp: pim_based_topics_def pim_candidates_def split: sum.splits)

lemma pim_counter_Inr:
  assumes "pim_counter grams = Inr d"
  shows "(\<forall>u\<in>set grams. \<forall>v\<in>set grams. length v \<le> length u)
       \<and> d = foldl (\<lambda>d v. if 2 < joint_count grams v
                              then counter_update (py_join '' '' v) (pmi_single grams v) d
                              else d) [] grams"
  using assms by (simp add: pim_counter_eq split: if_splits)

lemma pim_counter_entry:
  assumes d: "pim_counter grams = Inr d"
      and tok: "\<forall>v\<in>set grams. \<forall>w\<in>set v. CHR '' '' \<notin> set w"
      and mem: "(topic, score) \<in> set d"
  shows "\<exists>v\<in>set grams. topic = py_join '' '' v \<and> 2 < joint_count grams v
           \<and> occurrence_count grams topic = joint_count grams v
           \<and> score = real (joint_count grams v) * pmi_single grams v"
proof -
  let ?q = "\<lambda>v. 2 < joint_count grams v"
  let ?key = "py_join '' ''"
  let ?val = "pmi_single grams"
  let ?F = "foldl (\<lambda>d v. if ?q v then counter_update (?key v) (?val v) d else d) [] grams"
  from pim_counter_Inr[OF d] have len: "\<forall>u\<in>set grams. \<forall>v\<in>set grams. length v \<le> length u"
    and dF: "d = ?F" by blast+
  have dist: "distinct (map fst d)"
    unfolding dF by (rule distinct_fold_updates) simp
  have "topic \<in> fst ` set d" using mem by force
  then have "topic \<in> ?key ` {v \<in> set grams. ?q v}"
    unfolding dF by (simp add: key_set_fold_updates)
  then obtain v0 where v0: "v0 \<in> set grams" "?q v0" "topic = ?key v0" by auto
  have same: "(?key v = topic) = (v = v0)" if "v \<in> set grams" for v
  proof
    assume eq: "?key v = topic"
    have "length v = length v0" using len that v0(1) by (meson le_antisym)
    then show "v = v0" using tok that v0(1) eq v0(3) by (intro py_join_inj) auto
  next
    assume "v = v0" then show "?key v = topic" using v0(3) by simp
  qed
  have filt: "filter (\<lambda>v. ?q v \<and> ?key v = topic) grams = filter (\<lambda>v. v = v0) grams"
    by (rule filter_cong) (use same v0(2) in auto)
  have "score = counter_get d topic"
    using counter_get_mem[OF dist mem] by simp
  also have "\<dots> = counter_get [] topic + sum_list (map ?val (filter (\<lambda>v. ?q v \<and> ?key v = topic) grams))"
    unfolding dF by (rule get_fold_updates)
  also have "\<dots> = sum_list (map ?val (filter (\<lambda>v. v = v0) grams))"
    by (simp only: filt) (simp add: counter_get_def)
  also have "\<dots> = real (joint_count grams v0) * ?val v0"
    by (simp add: sum_list_same joint_count_def)
  finally have score: "score = real (joint_count grams v0) * ?val v0" .
  have "occurrence_count grams topic = length (filter (\<lambda>v. ?key v = topic) grams)"
    by (simp add: occurrence_count_def count_list_map)
  also have "\<dots> = length (filter (\<lambda>v. v = v0) grams)"
    by (rule arg_cong[where f = length], rule filter_cong) (use same in auto)
  finally have "occurrence_count grams topic = joint_count grams v0"
    by (simp add: joint_count_def)
  then show ?thesis using v0 score by blast
qed

lemma pim_result_entry:
  assumes g: "get_n_grams T L content n = Inr grams"
      and r: "pim_based_topics T L content n number = Inr result"
      and mem: "(topic, score) \<in> set result"
  shows "\<exists>v\<in>set grams. topic = py_join '' '' v \<and> 2 < joint_count grams v
           \<and> occurrence_count grams topic = joint_count grams v
           \<and> score = real (joint_count grams v) * pmi_single grams v"
proof -
  from pim_topics_counter[OF g r] obtain d where d: "pim_counter grams = Inr d"
    and res: "result = (if number \<noteq> None \<and> number \<noteq> Some 0
                       then most_common number d else most_common None d)" by blast
  have "set result \<subseteq> set d" using res set_most_common by (auto split: if_splits)
  then have md: "(topic, score) \<in> set d" using mem by blast
  have tok: "\<forall>v\<in>set grams. \<forall>w\<in>set v. CHR '' '' \<notin> set w"
    using get_n_grams_tokens[OF g] by blast
  show ?thesis by (rule pim_counter_entry[OF d tok md])
qed


lemma abc_grams:
  "get_n_grams noun_tagger id_lemmatizer [''a b c'', ''a b c'', ''a b c''] 2
   = Inr [[''a'',''b''],[''b'',''c''],[''a'',''b''],[''b'',''c''],[''a'',''b''],[''b'',''c'']]"
  by code_simp

lemma abc_counter:
  "pim_counter [[''a'',''b''],[''b'',''c''],[''a'',''b''],[''b'',''c''],[''a'',''b''],[''b'',''c'']]
   = Inr [(''a b'', 3 * ln 2), (''b c'', 3 * ln 2)]"
  by (simp add: pim_counter_def pim_step_def ngram_counts_def count_entry_def counter_update_def
        counter_get_def upt_conv_Cons)

lemma abc_pim_all:
  "pim_based_topics noun_tagger id_lemmatizer [''a b c'', ''a b c'', ''a b c''] 2 None
   = Inr [(''a b'', 3 * ln 2), (''b c'', 3 * ln 2)]"
  by (simp add: pim_based_topics_def pim_candidates_def abc_grams abc_counter most_common_def
        sorted_desc_def)


lemma get_dict_set:
  "counter_get (dict_set x v d) k = (if k = x then v else counter_get d k)"
  by (simp add: counter_get_def map_of_dict_set)

lemma get_count_fold:
  "counter_get (foldl (\<lambda>d x. dict_set x (counter_get d x + 1) d) d0 xs) k
     = counter_get d0 k + int (count_list xs k)"
  by (induction xs arbitrary: d0) (auto simp: get_dict_set)

lemma get_count_elements: "counter_get (count_elements xs) k = int (count_list xs k)"
  by (simp add: count_elements_def get_count_fold) (simp add: counter_get_def)

lemma fold_err_Inr_foldl:
  assumes "fold_err f xs s = Inr r"
    and "\<And>x s s'. x \<in> set xs \<Longrightarrow> f x s = Inr s' \<Longrightarrow> s' = g x s"
  shows "r = foldl (\<lambda>s x. g x s) s xs"
  using assms
proof (induction xs arbitrary: s)
  case Nil
  then show ?case by simp
next
  case (Cons x xs)
  from Cons.prems(1) obtain s' where s': "f x s = Inr s'" "fold_err f xs s' = Inr r"
    by (auto split: sum.splits)
  have "s' = g x s" using Cons.prems(2)[of x s s'] s'(1) by simp
  moreover have "r = foldl (\<lambda>s x. g x s) s' xs"
    by (rule Cons.IH[OF s'(2)]) (use Cons.prems(2) in auto)
  ultimately show ?case by simp
qed

lemma pos_counter_Inr:
  assumes "pos_counter q ngrams = Inr d"
  shows "d = foldl (\<lambda>d v. if q v = Inr True
                            then counter_update v (counter_get (count_elements ngrams) v) d
                            else d) [] ngrams"
proof -
  have "d = foldl (\<lambda>d v. (\<lambda>v d. if q v = Inr True
                            then counter_update v (counter_get (count_elements ngrams) v) d
                            else d) v d) [] ngrams"
  proof (rule fold_err_Inr_foldl)
    show "fold_err (pos_step q (count_elements ngrams)) ngrams [] = Inr d"
      using assms by (simp add: pos_counter_def)
  next
    fix x s s' assume "pos_step q (count_elements ngrams) x s = Inr s'"
    then show "s' = (if q x = Inr True
                     then counter_update x (counter_get (count_elements ngrams) x) s else s)"
      by (auto simp: pos_step_def split: sum.splits if_splits)
  qed
  then show ?thesis by simp
qed

lemma pos_counter_distinct:
  assumes "pos_counter q ngrams = Inr d"
  shows "distinct (map fst d)"
  unfolding pos_counter_Inr[OF assms] by (rule distinct_fold_updates) simp

lemma pos_counter_entry:
  assumes d: "pos_counter q ngrams = Inr d" and mem: "(topic, score) \<in> set d"
  shows "score = (int (count_list ngrams topic))\<^sup>2 \<and> q topic = Inr True \<and> topic \<in> set ngrams"
proof -
  let ?q = "\<lambda>v. q v = Inr True"
  let ?val = "\<lambda>v. counter_get (count_elements ngrams) v"
  let ?F = "foldl (\<lambda>d v. if ?q v then counter_update v (?val v) d else d) [] ngrams"
  have dF: "d = ?F" by (rule pos_counter_Inr[OF d])
  have dist: "distinct (map fst d)" by (rule pos_counter_distinct[OF d])
  have "topic \<in> fst ` set d" using mem by force
  then have "topic \<in> (\<lambda>v. v) ` {v \<in> set ngrams. ?q v}"
    unfolding dF by (simp only: key_set_fold_updates[where key = "\<lambda>v. v"]) simp
  then have q: "?q topic" and inl: "topic \<in> set ngrams" by auto
  have filt: "filter (\<lambda>v. ?q v \<and> v = topic) ngrams = filter (\<lambda>v. v = topic) ngrams"
    by (rule filter_cong) (use q in auto)
  have "score = counter_get d topic"
    using counter_get_mem[OF dist mem] by simp
  also have "\<dots> = counter_get [] topic + sum_list (map ?val (filter (\<lambda>v. ?q v \<and> v = topic) ngrams))"
    unfolding dF by (rule get_fold_updates[where key = "\<lambda>v. v"])
  also have "\<dots> = sum_list (map ?val (filter (\<lambda>v. v = topic) ngrams))"
    by (simp only: filt) (simp add: counter_get_def)
  also have "\<dots> = int (length (filter (\<lambda>v. v = topic) ngrams)) * ?val topic"
    by (simp add: sum_list_same)
  also have "\<dots> = (int (count_list ngrams topic))\<^sup>2"
    using count_list_map[of "\<lambda>v. v" ngrams topic]
    by (simp add: get_count_elements power2_eq_square)
  finally show ?thesis using q inl by simp
qed

lemma pos_topics_counter:
  assumes "get_n_grams T L content n = Inr grams"
      and "pos_based_topics T L content n number = Inr result"
  shows "(n = 2 \<or> n = 3)
       \<and> (\<exists>d. pos_candidates T L content n = Inr d
             \<and> pos_counter (if n = 3 then qualifies3 T else qualifies2 T)
                  (map (py_join '' '') grams) = Inr d
             \<and> result = most_common number d)"
  using assms
  by (auto simp: pos_based_topics_def pos_candidates_def Let_def split: sum.splits if_splits)

text \<open>
  Claim C2. \<^verbatim>\<open>pos_based_topics\<close> returns only for \<open>n = 2\<close> and \<open>n = 3\<close>, and then the
  score of every returned topic is the square of the number of occurrences of the topic
  string among the space-joined n-grams.
\<close>

theorem pos_score_square:
  assumes "get_n_grams T L content n = Inr grams"
      and "pos_based_topics T L content n number = Inr result"
      and "(topic, score) \<in> set result"
  shows "(n = 2 \<or> n = 3) \<and> score = (int (occurrence_count grams topic))\<^sup>2"
proof -
  from pos_topics_counter[OF assms(1,2)] obtain d where n: "n = 2 \<or> n = 3"
    and d: "pos_counter (if n = 3 then qualifies3 T else qualifies2 T)
                  (map (py_join '' '') grams) = Inr d"
    and res: "result = most_common number d" by blast
  have "(topic, score) \<in> set d" using assms(3) res set_most_common by blast
  from pos_counter_entry[OF d this] n show ?thesis by (simp add: occurrence_count_def)
qed

lemma abc_pos_all:
  "pos_based_topics noun_tagger id_lemmatizer [''a b c'', ''a b c'', ''a b c''] 2 None
   = Inr [(''a b'', 9), (''b c'', 9)]"
  by code_simp

theorem pos_score_square_witness:
  "get_n_grams noun_tagger id_lemmatizer [''a b c'', ''a b c'', ''a b c''] 2
     = Inr [[''a'',''b''],[''b'',''c''],[''a'',''b''],[''b'',''c''],[''a'',''b''],[''b'',''c'']]
   \<and> pos_based_topics noun_tagger id_lemmatizer [''a b c'', ''a b c'', ''a b c''] 2 None
     = Inr [(''a b'', 9), (''b c'', 9)]
   \<and> (9::int) = (int (occurrence_count
        [[''a'',''b''],[''b'',''c''],[''a'',''b''],[''b'',''c''],[''a'',''b''],[''b'',''c'']] ''b c''))\<^sup>2"
proof -
  have m: "(''b c'', 9) \<in> set [(''a b'', 9), (''b c'', 9::int)]" by simp
  show ?thesis
    using pos_score_square[OF abc_grams abc_pos_all m] abc_grams abc_pos_all by blast
qed

text \<open>
  Claim C8. For every value of \<open>number\<close>, a topic with at most two occurrences among the
  joined n-grams is no topic of the output of \<^verbatim>\<open>pim_based_topics\<close>, and an iteration of the
  scoring loop for an n-gram whose joint count is at most two leaves the counter as it is.
\<close>

theorem pim_rare_topics_excluded:
  assumes "get_n_grams T L content n = Inr grams"
      and "pim_based_topics T L content n number = Inr result"
  shows "(occurrence_count grams topic \<le> 2 \<longrightarrow> topic \<notin> fst ` set result)
       \<and> (joint_count grams v \<le> 2 \<longrightarrow> pim_step grams v counter = Inr counter' \<longrightarrow> counter' = counter)"
proof (intro conjI impI)
  assume few: "occurrence_count grams topic \<le> 2"
  show "topic \<notin> fst ` set result"
  proof
    assume "topic \<in> fst ` set result"
    then obtain score where "(topic, score) \<in> set result" by auto
    from pim_result_entry[OF assms this] few show False by auto
  qed
next
  assume "joint_count grams v \<le> 2" "pim_step grams v counter = Inr counter'"
  then show "counter' = counter" by (auto simp: pim_step_eq split: if_splits)
qed

lemma aab_grams:
  "get_n_grams noun_tagger id_lemmatizer [''a b c'', ''a b c'', ''a b c d''] 2
   = Inr [[''a'',''b''],[''b'',''c''],[''a'',''b''],[''b'',''c''],[''a'',''b''],[''b'',''c''],[''c'',''d'']]"
  by code_simp

lemma aab_counter:
  "pim_counter [[''a'',''b''],[''b'',''c''],[''a'',''b''],[''b'',''c''],[''a'',''b''],[''b'',''c''],[''c'',''d'']]
   = Inr [(''a b'', 3 * ln (7 / 3)), (''b c'', 3 * ln (7 / 3))]"
  by (simp add: pim_counter_def pim_step_def ngram_counts_def count_entry_def counter_update_def
        counter_get_def upt_conv_Cons)

lemma aab_pim:
  "pim_based_topics noun_tagger id_lemmatizer [''a b c'', ''a b c'', ''a b c d''] 2 (Some 5)
   = Inr [(''a b'', 3 * ln (7 / 3)), (''b c'', 3 * ln (7 / 3))]"
  by (simp add: pim_based_topics_def pim_candidates_def aab_grams aab_counter most_common_def
        nlargest_def sorted_desc_def)

theorem pim_rare_topics_excluded_witness:
  "get_n_grams noun_tagger id_lemmatizer [''a b c'', ''a b c'', ''a b c d''] 2
     = Inr [[''a'',''b''],[''b'',''c''],[''a'',''b''],[''b'',''c''],[''a'',''b''],[''b'',''c''],[''c'',''d'']]
   \<and> pim_based_topics noun_tagger id_lemmatizer [''a b c'', ''a b c'', ''a b c d''] 2 (Some 5)
     = Inr [(''a b'', 3 * ln (7 / 3)), (''b c'', 3 * ln (7 / 3))]
   \<and> occurrence_count [[''a'',''b''],[''b'',''c''],[''a'',''b''],[''b'',''c''],[''a'',''b''],[''b'',''c''],[''c'',''d'']] ''c d'' \<le> 2
   \<and> ''c d'' \<notin> fst ` set [(''a b'', 3 * ln (7 / 3)), (''b c'', 3 * ln (7 / 3 :: real))]
   \<and> joint_count [[''a'',''b''],[''b'',''c''],[''a'',''b''],[''b'',''c''],[''a'',''b''],[''b'',''c''],[''c'',''d'']] [''c'',''d''] \<le> 2
   \<and> pim_step [[''a'',''b''],[''b'',''c''],[''a'',''b''],[''b'',''c''],[''a'',''b''],[''b'',''c''],[''c'',''d'']] [''c'',''d''] [(''a b'', 1)]
       = Inr [(''a b'', 1)]"
proof -
  have j: "joint_count [[''a'',''b''],[''b'',''c''],[''a'',''b''],[''b'',''c''],[''a'',''b''],[''b'',''c''],[''c'',''d'']] [''c'',''d''] \<le> 2"
    by (simp add: joint_count_def)
  have st: "\<exists>counter'. pim_step [[''a'',''b''],[''b'',''c''],[''a'',''b''],[''b'',''c''],[''a'',''b''],[''b'',''c''],[''c'',''d'']] [''c'',''d''] [(''a b'', 1)]
       = Inr counter'"
    by (simp add: pim_step_def ngram_counts_def count_entry_def upt_conv_Cons)
  have few: "occurrence_count [[''a'',''b''],[''b'',''c''],[''a'',''b''],[''b'',''c''],[''a'',''b''],[''b'',''c''],[''c'',''d'']] ''c d'' \<le> 2"
    by (simp add: occurrence_count_def)
  show ?thesis
    using pim_rare_topics_excluded[OF aab_grams aab_pim, of "''c d''" "[''c'',''d'']" "[(''a b'', 1)]"]
      few j st aab_grams aab_pim
    by metis
qed


lemma map_err_total:
  "(\<And>x. x \<in> set xs \<Longrightarrow> \<exists>y. f x = Inr y) \<Longrightarrow> \<exists>ys. map_err f xs = Inr ys"
  by (induction xs) (fastforce split: sum.splits)+


lemma get_n_grams_total:
  assumes "\<forall>t. T t \<noteq> []"
  shows "\<exists>grams. get_n_grams T L content n = Inr grams"
proof -
  have tok: "\<exists>y. lemmatize_token T L w = Inr y" for w
    using assms by (auto simp: lemmatize_token_def get_pos_def tag_first_def split: list.splits)
  have "\<exists>y. lemmatize_sentence T L c = Inr y" for c
    using map_err_total[of "py_split c" "lemmatize_token T L"] tok
    by (auto simp: lemmatize_sentence_def)
  then have "\<exists>ys. lemmatize_content T L content = Inr ys"
    unfolding lemmatize_content_def by (intro map_err_total) auto
  then show ?thesis by (auto simp: get_n_grams_def)
qed





lemma pim_topics_grams:
  assumes "pim_based_topics T L content n number = Inr result"
  shows "\<exists>grams. get_n_grams T L content n = Inr grams"
  using assms by (auto simp: pim_based_topics_def pim_candidates_def split: sum.splits)

lemma pos_topics_grams:
  assumes "pos_based_topics T L content n number = Inr result"
  shows "\<exists>grams. get_n_grams T L content n = Inr grams"
  using assms by (auto simp: pos_based_topics_def pos_candidates_def split: sum.splits)

lemma pim_counter_distinct:
  assumes "pim_counter grams = Inr d"
  shows "distinct (map fst d)"
proof -
  have "d = foldl (\<lambda>d v. if 2 < joint_count grams v
                              then counter_update (py_join '' '' v) (pmi_single grams v) d
                              else d) [] grams"
    using pim_counter_Inr[OF assms] by blast
  then show ?thesis using distinct_fold_updates[of "[]"] by simp
qed

text \<open>
  Claim C10. The topic strings of the sequence returned by \<^verbatim>\<open>pim_based_topics\<close> are pairwise
  distinct, and so are those of the sequence returned by \<^verbatim>\<open>pos_based_topics\<close>.
\<close>

theorem topics_distinct:
  "(pim_based_topics T L content n number = Inr result \<longrightarrow> distinct (map fst result))
   \<and> (pos_based_topics T L content n pnumber = Inr presult \<longrightarrow> distinct (map fst presult))"
proof (intro conjI impI)
  assume r: "pim_based_topics T L content n number = Inr result"
  from pim_topics_grams[OF r] obtain grams where g: "get_n_grams T L content n = Inr grams" ..
  from pim_topics_counter[OF g r] obtain d where d: "pim_counter grams = Inr d"
    and res: "result = (if number \<noteq> None \<and> number \<noteq> Some 0
                       then most_common number d else most_common None d)" by blast
  show "distinct (map fst result)"
    using pim_counter_distinct[OF d] res by (auto intro: distinct_keys_most_common)
next
  assume r: "pos_based_topics T L content n pnumber = Inr presult"
  from pos_topics_grams[OF r] obtain grams where g: "get_n_grams T L content n = Inr grams" ..
  from pos_topics_counter[OF g r] obtain d
    where d: "pos_counter (if n = 3 then qualifies3 T else qualifies2 T)
                  (map (py_join '' '') grams) = Inr d"
    and res: "presult = most_common pnumber d" by blast
  show "distinct (map fst presult)"
    using pos_counter_distinct[OF d] res by (auto intro: distinct_keys_most_common)
qed

theorem topics_distinct_witness:
  "pim_based_topics noun_tagger id_lemmatizer [''a b c'', ''a b c'', ''a b c''] 2 None
     = Inr [(''a b'', 3 * ln 2), (''b c'', 3 * ln 2)]
   \<and> distinct (map fst [(''a b'', 3 * ln 2), (''b c'', 3 * ln (2::real))])
   \<and> pos_based_topics noun_tagger id_lemmatizer [''a b c'', ''a b c'', ''a b c''] 2 None
     = Inr [(''a b'', 9), (''b c'', 9)]
   \<and> distinct (map fst [(''a b'', 9), (''b c'', 9::int)])"
  using topics_distinct[of noun_tagger id_lemmatizer "[''a b c'', ''a b c'', ''a b c'']" 2 None
      "[(''a b'', 3 * ln 2), (''b c'', 3 * ln 2)]" None "[(''a b'', 9), (''b c'', 9)]"]
    abc_pim_all abc_pos_all
  by blast

text \<open>
  Claim C4. For \<open>n\<close> other than 2 and 3 \<^verbatim>\<open>pos_based_topics\<close> never returns a result: once the
  n-gram list is there, no counter is built and the outcome is \<^verbatim>\<open>InvalidArgument\<close>, whatever
  the content; the n-gram list is there whenever the tagger gives every token a non-empty tag.
\<close>

theorem pos_invalid_n:
  assumes "n \<noteq> 2" and "n \<noteq> 3"
  shows "pos_based_topics T L content n number \<noteq> Inr result
       \<and> (get_n_grams T L content n = Inr grams \<longrightarrow>
            pos_candidates T L content n = Inl InvalidArgument
          \<and> pos_based_topics T L content n number = Inl InvalidArgument)
       \<and> ((\<forall>t. T t \<noteq> []) \<longrightarrow> pos_based_topics T L content n number = Inl InvalidArgument)"
proof -
  have a: "pos_candidates T L content n = Inl InvalidArgument
          \<and> pos_based_topics T L content n number = Inl InvalidArgument"
    if "get_n_grams T L content n = Inr g" for g
    using that assms by (simp add: pos_based_topics_def pos_candidates_def)
  have b: "pos_based_topics T L content n number \<noteq> Inr result"
    using assms by (auto simp: pos_based_topics_def pos_candidates_def split: sum.splits)
  have c: "pos_based_topics T L content n number = Inl InvalidArgument" if "\<forall>t. T t \<noteq> []"
    using get_n_grams_total[OF that, of L content n] a by blast
  show ?thesis using a b c by blast
qed

theorem pos_invalid_n_witness:
  "(4::int) \<noteq> 2 \<and> (4::int) \<noteq> 3
   \<and> get_n_grams noun_tagger id_lemmatizer [''a b c d e'', ''a b c d e''] 4
       = Inr [[''a'',''b'',''c'',''d''],[''b'',''c'',''d'',''e''],[''a'',''b'',''c'',''d''],[''b'',''c'',''d'',''e'']]
   \<and> pos_candidates noun_tagger id_lemmatizer [''a b c d e'', ''a b c d e''] 4 = Inl InvalidArgument
   \<and> pos_based_topics noun_tagger id_lemmatizer [''a b c d e'', ''a b c d e''] 4 (Some 5)
       = Inl InvalidArgument"
proof -
  have n: "(4::int) \<noteq> 2" "(4::int) \<noteq> 3" by simp_all
  have g: "get_n_grams noun_tagger id_lemmatizer [''a b c d e'', ''a b c d e''] 4
       = Inr [[''a'',''b'',''c'',''d''],[''b'',''c'',''d'',''e''],[''a'',''b'',''c'',''d''],[''b'',''c'',''d'',''e'']]"
    by code_simp
  have t: "\<forall>t. noun_tagger t \<noteq> []" by (simp add: noun_tagger_def)
  show ?thesis
    using pos_invalid_n[OF n, of noun_tagger id_lemmatizer "[''a b c d e'', ''a b c d e'']" "Some 5"] g t n
    by blast
qed















lemma sub_runs_head:
  "\<not> P a \<Longrightarrow> sub_runs P (a # cs) = a # sub_runs P cs"
  by simp














lemma handle_punctuation_digits: "handle_punctuation ''a1/2b'' = ''a b''"
  by code_simp

lemma lower_char_not_upper: "\<not> is_upper (lower_char c)"
  by (auto simp: is_upper_def lower_char_def Let_def)

lemma py_lower_not_upper: "c \<in> set (py_lower s) \<Longrightarrow> \<not> is_upper c"
  by (auto simp: py_lower_def lower_char_not_upper)

lemma findall_no_upper:
  "(\<forall>c\<in>set s. \<not> is_upper c) \<Longrightarrow> findall_acronyms s = []"
proof (induction s)
  case Nil
  then show ?case by simp
next
  case (Cons a s)
  have "acronym_prefix (a # s) = []" using Cons.prems by (cases s) auto
  then show ?case using Cons by simp
qed

lemma handle_period_no_upper:
  "(\<forall>c\<in>set s. \<not> is_upper c) \<Longrightarrow> handle_period s = s"
  by (simp add: handle_period_def findall_no_upper)

lemma lemmatize_token_known:
  assumes "\<forall>t. T t \<noteq> []" and "\<forall>p. L (py_lower w) p = l"
  shows "lemmatize_token T L w = Inr l"
  using assms by (auto simp: lemmatize_token_def get_pos_def tag_first_def split: list.splits)

text \<open>
  Claim C6, on the code. Whatever the tagger, and with the lemmas the scenario names, the
  content unit \<^verbatim>\<open>He has an M.B.A. degree.\<close> is lemmatised to a sentence in which the acronym
  is in lower case; \<^verbatim>\<open>_handle_period\<close>, which looks for capitals, leaves it as it is, and the
  sentence is split at the periods of the acronym into five fragments.
\<close>

theorem acronym_scenario_split:
  assumes "\<forall>t. T t \<noteq> []"
      and "\<forall>p. L ''he'' p = ''he''" and "\<forall>p. L ''has'' p = ''have''"
      and "\<forall>p. L ''an'' p = ''a''" and "\<forall>p. L ''m.b.a.'' p = ''m.b.a.''"
      and "\<forall>p. L ''degree.'' p = ''degree.''"
  shows "lemmatize_content T L [''He has an M.B.A. degree.''] = Inr [''he have a m.b.a. degree.'']
       \<and> handle_period ''he have a m.b.a. degree.'' = ''he have a m.b.a. degree.''
       \<and> fragments ''he have a m.b.a. degree.'' = [''he have a m'', ''b'', ''a'', '' degree'', '''']
       \<and> handle_period ''He has an M.B.A. degree.'' = ''He has an MBA degree.''"
proof -
  have sp: "py_split ''He has an M.B.A. degree.'' = [''He'', ''has'', ''an'', ''M.B.A.'', ''degree.'']"
    by code_simp
  have lo: "py_lower ''He'' = ''he''" "py_lower ''has'' = ''has''" "py_lower ''an'' = ''an''"
    "py_lower ''M.B.A.'' = ''m.b.a.''" "py_lower ''degree.'' = ''degree.''"
    by code_simp+
  have tk: "lemmatize_token T L ''He'' = Inr ''he''" "lemmatize_token T L ''has'' = Inr ''have''"
    "lemmatize_token T L ''an'' = Inr ''a''" "lemmatize_token T L ''M.B.A.'' = Inr ''m.b.a.''"
    "lemmatize_token T L ''degree.'' = Inr ''degree.''"
    using assms by (simp_all add: lemmatize_token_known lo)
  have a: "lemmatize_content T L [''He has an M.B.A. degree.''] = Inr [''he have a m.b.a. degree.'']"
    by (simp add: lemmatize_content_def lemmatize_sentence_def sp tk)
  have b: "handle_period ''he have a m.b.a. degree.'' = ''he have a m.b.a. degree.''"
    by code_simp
  have c: "fragments ''he have a m.b.a. degree.'' = [''he have a m'', ''b'', ''a'', '' degree'', '''']"
    by code_simp
  have d: "handle_period ''He has an M.B.A. degree.'' = ''He has an MBA degree.''"
    by code_simp
  show ?thesis using a b c d by simp
qed

theorem acronym_scenario_split_witness:
  "lemmatize_content noun_tagger scenario_lemmatizer [''He has an M.B.A. degree.'']
     = Inr [''he have a m.b.a. degree.'']
   \<and> fragments ''he have a m.b.a. degree.'' = [''he have a m'', ''b'', ''a'', '' degree'', '''']
   \<and> get_n_grams noun_tagger scenario_lemmatizer [''He has an M.B.A. degree.''] 2
     = Inr [[''he'', ''have''], [''have'', ''a''], [''a'', ''m'']]"
proof -
  have t: "\<forall>t. noun_tagger t \<noteq> []" by (simp add: noun_tagger_def)
  have l: "\<forall>p. scenario_lemmatizer ''he'' p = ''he''"
    "\<forall>p. scenario_lemmatizer ''has'' p = ''have''"
    "\<forall>p. scenario_lemmatizer ''an'' p = ''a''"
    "\<forall>p. scenario_lemmatizer ''m.b.a.'' p = ''m.b.a.''"
    "\<forall>p. scenario_lemmatizer ''degree.'' p = ''degree.''"
    by (simp_all add: scenario_lemmatizer_def)
  have g: "get_n_grams noun_tagger scenario_lemmatizer [''He has an M.B.A. degree.''] 2
     = Inr [[''he'', ''have''], [''have'', ''a''], [''a'', ''m'']]"
    by code_simp
  show ?thesis
    using acronym_scenario_split[OF t l] g by simp
qed

end
